theory Spec2Isabelle
  imports Main "HOL-Library.Multiset"
begin

section \<open>The word counter of \<^verbatim>\<open>basic.py\<close>\<close>

text \<open>
  The program being verified:
  \<^verbatim>\<open>
  counts = {}
  for line in sys.stdin:
      words = line.lower().split()
      for word in words:
          counts[word] = counts.get(word, 0) + 1

  pairs = sorted(counts.items(), key=lambda kv: kv[1], reverse=True)
  for word, count in pairs:
      print(word, count)
  \<close>
  The input is the text of standard input as the text layer hands it to the program
  (decoded, line ends as line feeds), the result is the text written to standard output.
  Characters are the code points below 256 (type \<open>char\<close>); Python's integers are
  \<open>int\<close>; the dictionary is an association list in insertion order, which is the order
  in which Python 3 iterates over a dictionary.
\<close>

subsection \<open>Characters: \<^verbatim>\<open>str.lower\<close> and white space\<close>

definition newline :: char where
  "newline = CHR 0x0A"

definition space :: char where
  "space = CHR 0x20"

text \<open>
  The characters \<^verbatim>\<open>str.split()\<close> separates at are those of \<^verbatim>\<open>str.isspace\<close>: below 256
  they are the codes 9 to 13, 28 to 32, 133 and 160.
\<close>

definition isspace :: "char \<Rightarrow> bool" where
  "isspace c =
     (let n = (of_char c :: nat)
      in (9 \<le> n \<and> n \<le> 13) \<or> (28 \<le> n \<and> n \<le> 32) \<or> n = 133 \<or> n = 160)"

text \<open>
  Lower-casing a character: the letters \<^verbatim>\<open>A\<close> to \<^verbatim>\<open>Z\<close> and the upper-case letters of
  the range 192 to 222 (215, the multiplication sign, is not a letter) move up by 32;
  every other character below 256 is its own lower case.
\<close>

definition lower_char :: "char \<Rightarrow> char" where
  "lower_char c =
     (let n = (of_char c :: nat)
      in if (65 \<le> n \<and> n \<le> 90) \<or> (192 \<le> n \<and> n \<le> 222 \<and> n \<noteq> 215)
         then char_of (n + 32) else c)"

definition lower :: "string \<Rightarrow> string" where
  "lower s = map lower_char s"

subsection \<open>\<^verbatim>\<open>str.split()\<close> and the lines of a text stream\<close>

text \<open>
  \<^verbatim>\<open>s.split()\<close> scans the string: it skips white space, stops at the end of the string,
  and otherwise takes the characters up to the next white space as one word.
\<close>

function split :: "string \<Rightarrow> string list" where
  "split s =
     (case dropWhile isspace s of
        [] \<Rightarrow> []
      | c # r \<Rightarrow> (c # takeWhile (\<lambda>x. \<not> isspace x) r) # split (dropWhile (\<lambda>x. \<not> isspace x) r))"
  by pat_completeness auto
termination
proof (relation "measure length")
  show "wf (measure length)" by simp
next
  fix s :: string and c r
  assume "dropWhile isspace s = c # r"
  then have "length (c # r) \<le> length s"
    by (metis length_dropWhile_le)
  moreover have "length (dropWhile (\<lambda>x. \<not> isspace x) r) \<le> length r"
    by (rule length_dropWhile_le)
  ultimately show "(dropWhile (\<lambda>x. \<not> isspace x) r, s) \<in> measure length"
    by simp
qed

declare split.simps [simp del]

text \<open>
  Iterating over a text stream yields its lines, each with its line feed; the last line
  is the rest of the text when that is not empty.
\<close>

function readlines :: "string \<Rightarrow> string list" where
  "readlines s =
     (if s = [] then []
      else case dropWhile (\<lambda>x. x \<noteq> newline) s of
             [] \<Rightarrow> [s]
           | c # r \<Rightarrow> (takeWhile (\<lambda>x. x \<noteq> newline) s @ [c]) # readlines r)"
  by pat_completeness auto
termination
proof (relation "measure length")
  show "wf (measure length)" by simp
next
  fix s :: string and c r
  assume "dropWhile (\<lambda>x. x \<noteq> newline) s = c # r"
  then have "length (c # r) \<le> length s"
    by (metis length_dropWhile_le)
  then show "(r, s) \<in> measure length"
    by simp
qed

declare readlines.simps [simp del]

subsection \<open>The dictionary\<close>

type_synonym dict = "(string \<times> int) list"

text \<open>\<^verbatim>\<open>d.get(key, default)\<close>\<close>

fun get :: "dict \<Rightarrow> string \<Rightarrow> int \<Rightarrow> int" where
  "get [] key dflt = dflt"
| "get ((k, v) # d) key dflt = (if k = key then v else get d key dflt)"

text \<open>
  \<^verbatim>\<open>d[key] = value\<close>: a key of the dictionary keeps its place, a new key goes to the end.
\<close>

fun setitem :: "dict \<Rightarrow> string \<Rightarrow> int \<Rightarrow> dict" where
  "setitem [] key val = [(key, val)]"
| "setitem ((k, v) # d) key val =
     (if k = key then (k, val) # d else (k, v) # setitem d key val)"

definition items :: "dict \<Rightarrow> (string \<times> int) list" where
  "items d = d"

subsection \<open>The two loops\<close>

text \<open>The inner loop, over the words of one line.\<close>

fun count_words :: "dict \<Rightarrow> string list \<Rightarrow> dict" where
  "count_words counts [] = counts"
| "count_words counts (word # words) =
     count_words (setitem counts word (get counts word 0 + 1)) words"

text \<open>The outer loop, over the lines of the input.\<close>

fun count_lines :: "dict \<Rightarrow> string list \<Rightarrow> dict" where
  "count_lines counts [] = counts"
| "count_lines counts (line # lines) =
     count_lines (count_words counts (split (lower line))) lines"

definition counts_of :: "string \<Rightarrow> dict" where
  "counts_of text = count_lines [] (readlines text)"

subsection \<open>Sorting and printing\<close>

text \<open>
  \<^verbatim>\<open>sorted(xs, key=f, reverse=True)\<close>: Python's sort is stable, and with \<^verbatim>\<open>reverse=True\<close>
  it reverses the list, sorts it by ascending key and reverses the result, so elements
  with equal keys keep their order.
\<close>

definition sorted_reverse :: "('a \<Rightarrow> int) \<Rightarrow> 'a list \<Rightarrow> 'a list" where
  "sorted_reverse f xs = rev (sort_key f (rev xs))"

definition pairs :: "string \<Rightarrow> (string \<times> int) list" where
  "pairs text = sorted_reverse (\<lambda>kv. snd kv) (items (counts_of text))"

text \<open>\<^verbatim>\<open>str(n)\<close> of an integer: its decimal digits, after a minus sign when negative.\<close>

fun str_nat :: "nat \<Rightarrow> string" where
  "str_nat n =
     (if n < 10 then [char_of (48 + n)]
      else str_nat (n div 10) @ [char_of (48 + n mod 10)])"

declare str_nat.simps [simp del]

definition str_int :: "int \<Rightarrow> string" where
  "str_int i = (if i < 0 then CHR ''-'' # str_nat (nat (- i)) else str_nat (nat i))"

text \<open>
  \<^verbatim>\<open>print(word, count)\<close> writes the word, one space, the count and a line feed. The
  emitted line is what comes before the line feed.
\<close>

definition emitted_line :: "string \<times> int \<Rightarrow> string" where
  "emitted_line kv = fst kv @ [space] @ str_int (snd kv)"

definition print_pair :: "string \<times> int \<Rightarrow> string" where
  "print_pair kv = emitted_line kv @ [newline]"

definition emitted :: "string \<Rightarrow> string list" where
  "emitted text = map emitted_line (pairs text)"

definition main :: "string \<Rightarrow> string" where
  "main text = concat (map print_pair (pairs text))"

subsection \<open>The token stream\<close>

text \<open>The words of all lines, in the order in which the loops meet them.\<close>

definition tokens :: "string \<Rightarrow> string list" where
  "tokens text = concat (map (\<lambda>line. split (lower line)) (readlines text))"

subsection \<open>Notions the properties are stated with\<close>

text \<open>
  Splitting at every white space character: the fragments between two separators, empty
  ones included. A string always has one fragment more than it has separators.
\<close>

fun fragments :: "string \<Rightarrow> string list" where
  "fragments [] = [[]]"
| "fragments (c # s) =
     (if isspace c then [] # fragments s
      else case fragments s of
             [] \<Rightarrow> [[c]]
           | f # fs \<Rightarrow> (c # f) # fs)"

text \<open>
  The tokens as the specification words them: every line is lower-cased and split at
  white space, and the empty fragments are discarded.
\<close>

definition spec_tokens :: "string \<Rightarrow> string list" where
  "spec_tokens text =
     concat (map (\<lambda>line. filter (\<lambda>f. f \<noteq> []) (fragments (lower line))) (readlines text))"

text \<open>The place of the first occurrence of a word in a list (its length when absent).\<close>

definition first_occurrence :: "'a list \<Rightarrow> 'a \<Rightarrow> nat" where
  "first_occurrence xs x = length (takeWhile (\<lambda>y. y \<noteq> x) xs)"

text \<open>The distinct elements of a list, in the order of their first occurrences.\<close>

fun first_seen :: "'a list \<Rightarrow> 'a list" where
  "first_seen [] = []"
| "first_seen (x # xs) = x # filter (\<lambda>y. y \<noteq> x) (first_seen xs)"

text \<open>The word before the first space of a printed line, and what follows that space.\<close>

definition word_of :: "string \<Rightarrow> string" where
  "word_of l = takeWhile (\<lambda>c. c \<noteq> space) l"

definition count_of :: "string \<Rightarrow> string" where
  "count_of l = tl (dropWhile (\<lambda>c. c \<noteq> space) l)"

text \<open>
  Lower case as a table: the upper-case letters below 256, the letters \<^verbatim>\<open>A\<close> to \<^verbatim>\<open>Z\<close>
  and those of the codes 192 to 214 and 216 to 222, and under each its lower-case letter.
  A character that is not in the table is its own lower case.
\<close>

definition upper_case_letters :: string where
  "upper_case_letters =
     ''ABCDEFGHIJKLMNOPQRSTUVWXYZ'' @ map char_of ([192..<215] @ [216..<223] :: nat list)"

definition lower_case_letters :: string where
  "lower_case_letters =
     ''abcdefghijklmnopqrstuvwxyz'' @ map char_of ([224..<247] @ [248..<255] :: nat list)"

definition lowercase_letter :: "char \<Rightarrow> char" where
  "lowercase_letter c =
     (case map_of (zip upper_case_letters lower_case_letters) c of
        None \<Rightarrow> c
      | Some l \<Rightarrow> l)"

definition lowercased :: "string \<Rightarrow> string" where
  "lowercased s = map lowercase_letter s"

text \<open>
  White space as a list: the characters of the codes 9 to 13, 28 to 32, 133 and 160. A
  text is cut at every one of them; between two of them lies a piece, which may be empty.
\<close>

definition white_space :: string where
  "white_space = map char_of ([9..<14] @ [28..<33] @ [133, 160] :: nat list)"

fun pieces :: "string \<Rightarrow> string list" where
  "pieces [] = [[]]"
| "pieces (c # s) =
     (if c \<in> set white_space then [] # pieces s
      else case pieces s of
             [] \<Rightarrow> [[c]]
           | p # ps \<Rightarrow> (c # p) # ps)"

text \<open>
  The tokens of the input, from the words of the specification alone: the whole text in
  lower case, cut at white space, without the empty pieces.
\<close>

definition input_tokens :: "string \<Rightarrow> string list" where
  "input_tokens s = filter (\<lambda>p. p \<noteq> []) (pieces (lowercased s))"

text \<open>
  Reading a decimal numeral: the value of a digit is its place among the ten digits, the
  value of a numeral is read from the left. A positive numeral starts with a digit other
  than zero and goes on with digits.
\<close>

definition digit_value :: "char \<Rightarrow> nat" where
  "digit_value c = length (takeWhile (\<lambda>d. d \<noteq> c) ''0123456789'')"

definition decimal_value :: "string \<Rightarrow> nat" where
  "decimal_value ds = foldl (\<lambda>n d. 10 * n + digit_value d) 0 ds"

definition positive_numeral :: "string \<Rightarrow> bool" where
  "positive_numeral ds =
     (case ds of
        [] \<Rightarrow> False
      | d # r \<Rightarrow> d \<in> set ''123456789'' \<and> list_all (\<lambda>c. c \<in> set ''0123456789'') r)"

text \<open>The input of the specification's example.\<close>

definition example_input :: string where
  "example_input = ''a b a'' @ [newline] @ ''A c b'' @ [newline]"

text \<open>Two inputs with the same words, two of them with equal counts, in different orders.\<close>

definition tie_input :: string where
  "tie_input = ''b a c c B''"

definition tie_input_reordered :: string where
  "tie_input_reordered = ''c'' @ [newline] @ ''B c'' @ [newline] @ ''a b''"

section \<open>Tokenising\<close>

subsection \<open>The equations of \<^verbatim>\<open>split\<close>\<close>

lemma split_Nil: "split [] = []"
  by (simp add: split.simps [of "[]"])

lemma split_space: "isspace c \<Longrightarrow> split (c # s) = split s"
  by (simp add: split.simps [of "c # s"] split.simps [of s])

lemma split_nonspace:
  "\<not> isspace c \<Longrightarrow>
   split (c # s) = (c # takeWhile (\<lambda>x. \<not> isspace x) s) # split (dropWhile (\<lambda>x. \<not> isspace x) s)"
  by (simp add: split.simps [of "c # s"])

lemma split_append_space:
  "isspace c \<Longrightarrow> split (a @ c # b) = split a @ split b"
proof (induction a rule: length_induct)
  case (1 a)
  show ?case
  proof (cases a)
    case Nil
    with "1.prems" show ?thesis by (simp add: split_Nil split_space)
  next
    case (Cons x a')
    show ?thesis
    proof (cases "isspace x")
      case True
      with Cons "1.IH" "1.prems" show ?thesis by (simp add: split_space)
    next
      case False
      note nonspace = this
      show ?thesis
      proof (cases "\<forall>y\<in>set a'. \<not> isspace y")
        case True
        then have l: "split ((x # a') @ c # b) = (x # a') # split b"
          using nonspace "1.prems"
          by (simp add: split_nonspace split_space takeWhile_append2 dropWhile_append2)
        from True have tw: "takeWhile (\<lambda>x. \<not> isspace x) a' = a'"
          and dw: "dropWhile (\<lambda>x. \<not> isspace x) a' = []"
          by simp_all
        have "split (x # a') = [x # a']"
          by (simp only: split_nonspace [OF nonspace] tw dw split_Nil)
        with l Cons show ?thesis by simp
      next
        case False
        then have tw: "takeWhile (\<lambda>x. \<not> isspace x) (a' @ c # b) = takeWhile (\<lambda>x. \<not> isspace x) a'"
          and dw: "dropWhile (\<lambda>x. \<not> isspace x) (a' @ c # b) = dropWhile (\<lambda>x. \<not> isspace x) a' @ c # b"
          by (auto simp: takeWhile_append1 dropWhile_append1)
        have "length (dropWhile (\<lambda>x. \<not> isspace x) a') < length a"
          using Cons length_dropWhile_le [of "\<lambda>x. \<not> isspace x" a'] by simp
        with "1.IH" "1.prems"
        have "split (dropWhile (\<lambda>x. \<not> isspace x) a' @ c # b) =
              split (dropWhile (\<lambda>x. \<not> isspace x) a') @ split b"
          by blast
        with Cons nonspace tw dw show ?thesis
          by (simp add: split_nonspace)
      qed
    qed
  qed
qed

lemma fragments_split_aux:
  "fragments s \<noteq> [] \<and>
   hd (fragments s) = takeWhile (\<lambda>x. \<not> isspace x) s \<and>
   filter (\<lambda>f. f \<noteq> []) (tl (fragments s)) = split (dropWhile (\<lambda>x. \<not> isspace x) s) \<and>
   filter (\<lambda>f. f \<noteq> []) (fragments s) = split s"
proof (induction s)
  case Nil
  show ?case by (simp add: split_Nil)
next
  case (Cons c s)
  show ?case
  proof (cases "isspace c")
    case True
    with Cons show ?thesis by (simp add: split_space)
  next
    case False
    from Cons obtain f fs where fr: "fragments s = f # fs"
      by (cases "fragments s") auto
    with Cons False show ?thesis
      by (simp add: split_nonspace)
  qed
qed

lemma split_fragments: "split s = filter (\<lambda>f. f \<noteq> []) (fragments s)"
  by (simp add: fragments_split_aux)

lemma tokens_spec_tokens: "tokens text = spec_tokens text"
  by (simp add: tokens_def spec_tokens_def split_fragments)

lemma isspace_newline: "isspace newline"
  by (simp add: isspace_def newline_def)

lemma lower_char_newline: "lower_char newline = newline"
  by (simp add: lower_char_def newline_def)

lemma readlines_Nil: "readlines [] = []"
  by (simp add: readlines.simps [of "[]"])

lemma readlines_last: "s \<noteq> [] \<Longrightarrow> newline \<notin> set s \<Longrightarrow> readlines s = [s]"
proof -
  assume s: "s \<noteq> []" and "newline \<notin> set s"
  then have dw: "dropWhile (\<lambda>x. x \<noteq> newline) s = []"
    by auto
  show ?thesis
    by (subst readlines.simps) (simp add: dw s)
qed

lemma readlines_line:
  "newline \<notin> set l \<Longrightarrow> readlines (l @ newline # r) = (l @ [newline]) # readlines r"
proof -
  assume "newline \<notin> set l"
  then have l: "\<And>x. x \<in> set l \<Longrightarrow> x \<noteq> newline"
    by auto
  have dw: "dropWhile (\<lambda>x. x \<noteq> newline) (l @ newline # r) = newline # r"
    using l by (simp add: dropWhile_append2)
  have tw: "takeWhile (\<lambda>x. x \<noteq> newline) (l @ newline # r) = l"
    using l by (simp add: takeWhile_append2)
  show ?thesis
    by (subst readlines.simps) (simp add: dw tw)
qed

lemma tokens_whole: "tokens s = split (lower s)"
  unfolding tokens_def
proof (induction s rule: readlines.induct)
  case (1 s)
  show ?case
  proof (cases "s = []")
    case True
    then show ?thesis by (simp add: readlines_Nil split_Nil lower_def)
  next
    case False
    note nonempty = this
    show ?thesis
    proof (cases "dropWhile (\<lambda>x. x \<noteq> newline) s")
      case Nil
      then have "newline \<notin> set s" by auto
      with nonempty show ?thesis by (simp add: readlines_last)
    next
      case (Cons c r)
      define l where "l = takeWhile (\<lambda>x. x \<noteq> newline) s"
      have c: "c = newline"
        using hd_dropWhile [of "\<lambda>x. x \<noteq> newline" s] Cons by auto
      have s: "s = l @ newline # r"
        using takeWhile_dropWhile_id [of "\<lambda>x. x \<noteq> newline" s] Cons c by (simp add: l_def)
      have l: "newline \<notin> set l"
        using set_takeWhileD [of newline "\<lambda>x. x \<noteq> newline" s] by (auto simp: l_def)
      have ih: "concat (map (\<lambda>line. split (lower line)) (readlines r)) = split (lower r)"
        using "1.IH" nonempty Cons by simp
      have "concat (map (\<lambda>line. split (lower line)) (readlines s)) =
            split (lower l @ newline # []) @ split (lower r)"
        using ih by (simp add: s readlines_line [OF l] lower_def lower_char_newline)
      also have "\<dots> = split (lower l @ newline # lower r)"
        by (simp add: split_append_space isspace_newline split_Nil)
      also have "\<dots> = split (lower s)"
        by (simp add: s lower_def lower_char_newline)
      finally show ?thesis .
    qed
  qed
qed

section \<open>The frequency table\<close>

subsection \<open>First occurrences\<close>

lemma set_first_seen: "set (first_seen xs) = set xs"
  by (induction xs) auto

lemma distinct_first_seen: "distinct (first_seen xs)"
  by (induction xs) (auto simp: set_first_seen)

lemma length_first_seen: "length (first_seen xs) = card (set xs)"
  using distinct_card [OF distinct_first_seen, of xs] by (simp add: set_first_seen)

subsection \<open>Reading and writing one entry\<close>

lemma keys_setitem:
  "map fst (setitem d k v) = (if k \<in> set (map fst d) then map fst d else map fst d @ [k])"
  by (induction d k v rule: setitem.induct) auto

lemma get_setitem:
  "get (setitem d k v) k' dflt = (if k' = k then v else get d k' dflt)"
  by (induction d k v rule: setitem.induct) auto


lemma dict_get:
  "distinct (map fst d) \<Longrightarrow> d = map (\<lambda>k. (k, get d k dflt)) (map fst d)"
proof (induction d)
  case Nil
  show ?case by simp
next
  case (Cons kv d)
  obtain k v where kv: "kv = (k, v)" by (cases kv)
  from Cons.prems kv have "k \<notin> fst ` set d" and "distinct (map fst d)"
    by auto
  then have "map (\<lambda>k'. (k', get (kv # d) k' dflt)) (map fst d) =
             map (\<lambda>k'. (k', get d k' dflt)) (map fst d)"
    using kv by (auto simp: image_iff)
  with Cons.IH \<open>distinct (map fst d)\<close> kv show ?case
    by simp
qed

subsection \<open>The loops\<close>

lemma count_words_append:
  "count_words d (xs @ ys) = count_words (count_words d xs) ys"
  by (induction xs arbitrary: d) auto

lemma count_lines_tokens:
  "count_lines d ls = count_words d (concat (map (\<lambda>line. split (lower line)) ls))"
  by (induction ls arbitrary: d) (auto simp: count_words_append)

lemma counts_of_count_words: "counts_of s = count_words [] (tokens s)"
  by (simp add: counts_of_def tokens_def count_lines_tokens)

lemma keys_count_words:
  "map fst (count_words d ws) =
   map fst d @ filter (\<lambda>w. w \<notin> set (map fst d)) (first_seen ws)"
proof (induction ws arbitrary: d)
  case Nil
  show ?case by simp
next
  case (Cons w ws)
  show ?case
  proof (cases "w \<in> set (map fst d)")
    case True
    then have "filter (\<lambda>x. x \<notin> set (map fst d)) (filter (\<lambda>y. y \<noteq> w) (first_seen ws)) =
               filter (\<lambda>x. x \<notin> set (map fst d)) (first_seen ws)"
      by (auto intro: filter_cong)
    with True show ?thesis
      by (simp add: Cons.IH keys_setitem)
  next
    case False
    then have "filter (\<lambda>x. x \<notin> set (map fst d)) (filter (\<lambda>y. y \<noteq> w) (first_seen ws)) =
               filter (\<lambda>x. x \<notin> set (map fst d @ [w])) (first_seen ws)"
      by (auto intro: filter_cong)
    with False show ?thesis
      by (simp add: Cons.IH keys_setitem)
  qed
qed

lemma get_count_words:
  "get (count_words d ws) w 0 = get d w 0 + int (count_list ws w)"
  by (induction ws arbitrary: d) (auto simp: get_setitem)

lemma distinct_keys_count_words: "distinct (map fst (count_words [] ws))"
  by (simp add: keys_count_words distinct_first_seen)

lemma count_words_closed:
  "count_words [] ws = map (\<lambda>w. (w, int (count_list ws w))) (first_seen ws)"
proof -
  have "count_words [] ws =
        map (\<lambda>k. (k, get (count_words [] ws) k 0)) (map fst (count_words [] ws))"
    by (rule dict_get) (rule distinct_keys_count_words)
  also have "\<dots> = map (\<lambda>w. (w, int (count_list ws w))) (first_seen ws)"
    by (simp add: get_count_words keys_count_words)
  finally show ?thesis .
qed


lemma counts_of_closed:
  "counts_of s = map (\<lambda>w. (w, int (count_list (tokens s) w))) (first_seen (tokens s))"
  by (simp add: counts_of_count_words count_words_closed)

subsection \<open>Sorting by descending key\<close>

lemma mset_sorted_reverse: "mset (sorted_reverse f xs) = mset xs"
  by (simp add: sorted_reverse_def)

lemma set_sorted_reverse: "set (sorted_reverse f xs) = set xs"
  by (simp add: sorted_reverse_def)

lemma length_sorted_reverse: "length (sorted_reverse f xs) = length xs"
  by (simp add: sorted_reverse_def)

lemma sorted_reverse_descending:
  "sorted_wrt (\<lambda>a b. f b \<le> f a) (sorted_reverse f xs)"
proof -
  have "sorted (map f (sort_key f (rev xs)))"
    by (rule sorted_sort_key)
  then have "sorted_wrt (\<lambda>a b. f a \<le> f b) (sort_key f (rev xs))"
    by (simp add: sorted_wrt_map)
  then show ?thesis
    by (simp add: sorted_reverse_def sorted_wrt_rev)
qed

lemma sorted_reverse_stable:
  "filter (\<lambda>y. f y = k) (sorted_reverse f xs) = filter (\<lambda>y. f y = k) xs"
proof -
  have "filter (\<lambda>y. f y = k) (sorted_reverse f xs) =
        rev (filter (\<lambda>y. f y = k) (sort_key f (rev xs)))"
    by (simp add: sorted_reverse_def rev_filter)
  also have "\<dots> = rev (filter (\<lambda>y. f y = k) (rev xs))"
    by (simp only: sort_key_stable)
  also have "\<dots> = filter (\<lambda>y. f y = k) xs"
    by (simp add: rev_filter)
  finally show ?thesis .
qed

lemma mset_pairs: "mset (pairs s) = mset (counts_of s)"
  by (simp add: pairs_def items_def mset_sorted_reverse)

lemma set_pairs: "set (pairs s) = set (counts_of s)"
  by (simp add: pairs_def items_def set_sorted_reverse)

lemma length_pairs: "length (pairs s) = card (set (tokens s))"
  by (simp add: pairs_def items_def length_sorted_reverse counts_of_closed length_first_seen)

lemma distinct_keys_pairs: "distinct (map fst (pairs s))"
proof -
  have "mset (map fst (pairs s)) = mset (map fst (counts_of s))"
    using arg_cong [OF mset_pairs, of "image_mset fst" s] by simp
  moreover have "distinct (map fst (counts_of s))"
    by (simp add: counts_of_count_words distinct_keys_count_words)
  ultimately show ?thesis
    by (metis mset_eq_imp_distinct_iff)
qed


lemma pairs_closed:
  "set (pairs s) = (\<lambda>w. (w, int (count_list (tokens s) w))) ` set (tokens s)"
  by (simp add: set_pairs counts_of_closed set_first_seen)

lemma pairs_sorted_wrt: "sorted_wrt (\<lambda>a b. snd b \<le> snd a) (pairs s)"
  unfolding pairs_def by (rule sorted_reverse_descending)

subsection \<open>Words hold no white space, counts hold digits\<close>

lemma split_words:
  "w \<in> set (split s) \<Longrightarrow> w \<noteq> [] \<and> (\<forall>c\<in>set w. \<not> isspace c)"
proof (induction s arbitrary: w rule: split.induct)
  case (1 s)
  show ?case
  proof (cases "dropWhile isspace s")
    case Nil
    with "1.prems" show ?thesis
      by (simp add: split.simps [of s])
  next
    case (Cons c r)
    have c: "\<not> isspace c"
      using hd_dropWhile [of isspace s] Cons by simp
    from "1.prems" Cons
    have "w = c # takeWhile (\<lambda>x. \<not> isspace x) r \<or>
          w \<in> set (split (dropWhile (\<lambda>x. \<not> isspace x) r))"
      by (simp add: split.simps [of s])
    then show ?thesis
    proof
      assume "w = c # takeWhile (\<lambda>x. \<not> isspace x) r"
      with c show ?thesis
        by (auto dest: set_takeWhileD)
    next
      assume "w \<in> set (split (dropWhile (\<lambda>x. \<not> isspace x) r))"
      with "1.IH" Cons show ?thesis
        by blast
    qed
  qed
qed

lemma tokens_no_space:
  "w \<in> set (tokens s) \<Longrightarrow> space \<notin> set w \<and> newline \<notin> set w"
proof -
  assume "w \<in> set (tokens s)"
  then have "\<forall>c\<in>set w. \<not> isspace c"
    using split_words [of w "lower s"] by (simp add: tokens_whole)
  moreover have "isspace space" and "isspace newline"
    by (simp_all add: isspace_def space_def newline_def)
  ultimately show ?thesis
    by blast
qed

lemma str_nat_digits:
  "c \<in> set (str_nat n) \<Longrightarrow> 48 \<le> (of_char c :: nat) \<and> (of_char c :: nat) \<le> 57"
proof (induction n arbitrary: c rule: str_nat.induct)
  case (1 n)
  show ?case
  proof (cases "n < 10")
    case True
    with "1.prems" show ?thesis
      by (simp add: str_nat.simps [of n])
  next
    case False
    with "1.prems" have "c \<in> set (str_nat (n div 10)) \<or> c = char_of (48 + n mod 10)"
      by (auto simp: str_nat.simps [of n])
    then show ?thesis
    proof
      assume "c \<in> set (str_nat (n div 10))"
      with "1.IH" False show ?thesis by blast
    next
      assume "c = char_of (48 + n mod 10)"
      moreover have "(48 + n mod 10) mod 256 = 48 + n mod 10"
        by (rule mod_less) arith
      ultimately show ?thesis
        by simp
    qed
  qed
qed

lemma str_int_no_space: "space \<notin> set (str_int i) \<and> newline \<notin> set (str_int i)"
proof -
  have "c \<noteq> space \<and> c \<noteq> newline" if "c \<in> set (str_int i)" for c
  proof -
    from that have "c = CHR ''-'' \<or> (48 \<le> (of_char c :: nat) \<and> (of_char c :: nat) \<le> 57)"
      using str_nat_digits [of c] by (auto simp: str_int_def split: if_splits)
    then show ?thesis
      by (auto simp: space_def newline_def)
  qed
  then show ?thesis by blast
qed

subsection \<open>The printed lines\<close>

lemma pairs_keys_tokens: "kv \<in> set (pairs s) \<Longrightarrow> fst kv \<in> set (tokens s)"
  by (auto simp: pairs_closed)

lemma word_of_emitted_line:
  "kv \<in> set (pairs s) \<Longrightarrow> word_of (emitted_line kv) = fst kv"
proof -
  assume "kv \<in> set (pairs s)"
  then have "\<And>c. c \<in> set (fst kv) \<Longrightarrow> c \<noteq> space"
    using tokens_no_space [of "fst kv" s] by (auto dest: pairs_keys_tokens)
  then show ?thesis
    by (simp add: word_of_def emitted_line_def takeWhile_append2)
qed

lemma count_of_emitted_line:
  "kv \<in> set (pairs s) \<Longrightarrow> count_of (emitted_line kv) = str_int (snd kv)"
proof -
  assume "kv \<in> set (pairs s)"
  then have "\<And>c. c \<in> set (fst kv) \<Longrightarrow> c \<noteq> space"
    using tokens_no_space [of "fst kv" s] by (auto dest: pairs_keys_tokens)
  then show ?thesis
    by (simp add: count_of_def emitted_line_def dropWhile_append2)
qed

lemma spaces_emitted_line:
  "kv \<in> set (pairs s) \<Longrightarrow> count_list (emitted_line kv) space = 1"
proof -
  assume "kv \<in> set (pairs s)"
  then have "space \<notin> set (fst kv)"
    using tokens_no_space [of "fst kv" s] by (auto dest: pairs_keys_tokens)
  then have "count_list (fst kv) space = 0"
    by (simp add: count_list_0_iff)
  moreover have "count_list (str_int (snd kv)) space = 0"
    using str_int_no_space [of "snd kv"] by (simp add: count_list_0_iff)
  ultimately show ?thesis
    by (simp add: emitted_line_def)
qed

lemma emitted_line_no_newline:
  "kv \<in> set (pairs s) \<Longrightarrow> newline \<notin> set (emitted_line kv)"
  using tokens_no_space [of "fst kv" s] str_int_no_space [of "snd kv"]
  by (auto simp: emitted_line_def space_def newline_def dest: pairs_keys_tokens)

lemma readlines_concat:
  "(\<And>l. l \<in> set ls \<Longrightarrow> newline \<notin> set l) \<Longrightarrow>
   readlines (concat (map (\<lambda>l. l @ [newline]) ls)) = map (\<lambda>l. l @ [newline]) ls"
proof (induction ls)
  case Nil
  show ?case by (simp add: readlines_Nil)
next
  case (Cons l ls)
  then show ?case
    by (simp add: readlines_line)
qed

lemma main_emitted: "main s = concat (map (\<lambda>l. l @ [newline]) (emitted s))"
  by (simp add: main_def emitted_def print_pair_def [abs_def] comp_def)

lemma readlines_main: "readlines (main s) = map (\<lambda>l. l @ [newline]) (emitted s)"
  unfolding main_emitted
  by (rule readlines_concat) (auto simp: emitted_def emitted_line_no_newline)

subsection \<open>The order of words with equal counts\<close>

lemma first_occurrence_Cons:
  "first_occurrence (x # xs) y = (if y = x then 0 else Suc (first_occurrence xs y))"
  by (simp add: first_occurrence_def)

lemma first_seen_sorted:
  "sorted_wrt (\<lambda>a b. first_occurrence xs a < first_occurrence xs b) (first_seen xs)"
proof (induction xs)
  case Nil
  show ?case by simp
next
  case (Cons x xs)
  have "sorted_wrt (\<lambda>a b. first_occurrence xs a < first_occurrence xs b)
          (filter (\<lambda>y. y \<noteq> x) (first_seen xs))"
    using Cons.IH by (rule sorted_wrt_filter)
  then have "sorted_wrt (\<lambda>a b. first_occurrence (x # xs) a < first_occurrence (x # xs) b)
          (filter (\<lambda>y. y \<noteq> x) (first_seen xs))"
    by (rule sorted_wrt_mono_rel [rotated]) (auto simp: first_occurrence_Cons)
  then show ?case
    by (auto simp: first_occurrence_Cons)
qed

lemma sorted_wrt_filter_nth:
  "sorted_wrt R (filter P xs) \<Longrightarrow> i < j \<Longrightarrow> j < length xs \<Longrightarrow> P (xs ! i) \<Longrightarrow> P (xs ! j) \<Longrightarrow>
   R (xs ! i) (xs ! j)"
proof (induction xs arbitrary: i j)
  case Nil
  then show ?case by simp
next
  case (Cons x xs)
  from Cons.prems(2) obtain j' where j: "j = Suc j'"
    by (cases j) auto
  show ?case
  proof (cases i)
    case 0
    with Cons.prems j have "P x" and "P (xs ! j')" and "j' < length xs"
      by auto
    with Cons.prems(1) have "R x (xs ! j')"
      by auto
    with 0 j show ?thesis by simp
  next
    case (Suc i')
    from Cons.prems(1) have "sorted_wrt R (filter P xs)"
      by (cases "P x") auto
    with Cons.IH [of i' j'] Cons.prems Suc j show ?thesis
      by simp
  qed
qed

lemma equal_counts_sorted:
  "sorted_wrt (\<lambda>a b. first_occurrence (tokens s) (fst a) < first_occurrence (tokens s) (fst b))
     (filter (\<lambda>kv. snd kv = c) (pairs s))"
proof -
  have "sorted_wrt (\<lambda>a b. first_occurrence (tokens s) (fst a) < first_occurrence (tokens s) (fst b))
          (counts_of s)"
    using first_seen_sorted [of "tokens s"]
    by (simp add: counts_of_closed sorted_wrt_map)
  then have "sorted_wrt (\<lambda>a b. first_occurrence (tokens s) (fst a) < first_occurrence (tokens s) (fst b))
          (filter (\<lambda>kv. snd kv = c) (counts_of s))"
    by (rule sorted_wrt_filter)
  then show ?thesis
    by (simp add: pairs_def items_def sorted_reverse_stable)
qed

lemma pairs_closed_form:
  "pairs s =
   sorted_reverse (\<lambda>kv. snd kv)
     (map (\<lambda>w. (w, int (count_list (tokens s) w))) (first_seen (tokens s)))"
  by (simp add: pairs_def items_def counts_of_closed)

subsection \<open>The pairs as a multiset\<close>

lemma mset_pairs_closed:
  "mset (pairs s) =
   image_mset (\<lambda>w. (w, int (count (mset (tokens s)) w))) (mset_set (set_mset (mset (tokens s))))"
proof -
  have fs: "mset (first_seen (tokens s)) = mset_set (set (tokens s))"
    using mset_set_set [OF distinct_first_seen, of "tokens s"] by (simp add: set_first_seen)
  have "mset (pairs s) =
        image_mset (\<lambda>w. (w, int (count_list (tokens s) w))) (mset (first_seen (tokens s)))"
    by (simp add: mset_pairs counts_of_closed)
  then show ?thesis
    by (simp add: fs count_mset)
qed

subsection \<open>The tokens of the specification\<close>

lemma letters_table:
  "\<forall>ul\<in>set (zip upper_case_letters lower_case_letters).
     (of_char (snd ul) :: nat) = of_char (fst ul) + 32 \<and>
     ((65 \<le> (of_char (fst ul) :: nat) \<and> (of_char (fst ul) :: nat) \<le> 90) \<or>
      (192 \<le> (of_char (fst ul) :: nat) \<and> (of_char (fst ul) :: nat) \<le> 222 \<and>
       (of_char (fst ul) :: nat) \<noteq> 215))"
  by code_simp

lemma letters_length: "length upper_case_letters = length lower_case_letters"
  by code_simp

lemma letters_cover:
  "\<forall>n\<in>set ([65..<91] @ [192..<215] @ [216..<223]). char_of (n :: nat) \<in> set upper_case_letters"
  by code_simp

lemma lower_char_lowercase_letter: "lower_char c = lowercase_letter c"
proof (cases "map_of (zip upper_case_letters lower_case_letters) c")
  case None
  then have "c \<notin> fst ` set (zip upper_case_letters lower_case_letters)"
    by (simp add: map_of_eq_None_iff)
  then have notin: "c \<notin> set upper_case_letters"
    using letters_length by (simp add: map_fst_zip flip: set_map)
  have ranges: "n \<in> set ([65..<91] @ [192..<215] @ [216..<223]) \<longleftrightarrow>
      (65 \<le> n \<and> n \<le> 90) \<or> (192 \<le> n \<and> n \<le> 222 \<and> n \<noteq> 215)" for n :: nat
    by (simp only: set_append set_upt) auto
  have "(of_char c :: nat) \<notin> set ([65..<91] @ [192..<215] @ [216..<223])"
  proof
    assume "(of_char c :: nat) \<in> set ([65..<91] @ [192..<215] @ [216..<223])"
    with letters_cover have "char_of (of_char c :: nat) \<in> set upper_case_letters"
      by blast
    with notin show False by simp
  qed
  then have "\<not> ((65 \<le> (of_char c :: nat) \<and> (of_char c :: nat) \<le> 90) \<or>
      (192 \<le> (of_char c :: nat) \<and> (of_char c :: nat) \<le> 222 \<and> (of_char c :: nat) \<noteq> 215))"
    using ranges [of "of_char c"] by blast
  then have "lower_char c = c"
    unfolding lower_char_def Let_def by (rule if_not_P)
  with None show ?thesis
    by (simp add: lowercase_letter_def)
next
  case (Some l)
  then have "(c, l) \<in> set (zip upper_case_letters lower_case_letters)"
    by (rule map_of_SomeD)
  with letters_table
  have l: "(of_char l :: nat) = of_char c + 32"
    and c: "(65 \<le> (of_char c :: nat) \<and> (of_char c :: nat) \<le> 90) \<or>
      (192 \<le> (of_char c :: nat) \<and> (of_char c :: nat) \<le> 222 \<and> (of_char c :: nat) \<noteq> 215)"
    by force+
  from l have "l = char_of (of_char c + 32 :: nat)"
    by (metis char_of_comp_of_char comp_apply id_apply)
  with c Some show ?thesis
    by (simp add: lower_char_def lowercase_letter_def Let_def)
qed

lemma lower_lowercased: "lower s = lowercased s"
  by (simp add: lower_def lowercased_def lower_char_lowercase_letter)

lemma isspace_white_space: "isspace c \<longleftrightarrow> c \<in> set white_space"
proof -
  have codes: "n \<in> set ([9..<14] @ [28..<33] @ [133, 160]) \<longleftrightarrow>
      (9 \<le> n \<and> n \<le> 13) \<or> (28 \<le> n \<and> n \<le> 32) \<or> n = 133 \<or> n = 160" for n :: nat
    by (simp only: set_append set_upt) auto
  have "c \<in> set white_space \<longleftrightarrow> (of_char c :: nat) \<in> set ([9..<14] @ [28..<33] @ [133, 160])"
  proof
    assume "c \<in> set white_space"
    then obtain n :: nat where n: "n \<in> set ([9..<14] @ [28..<33] @ [133, 160])" and c: "c = char_of n"
      unfolding white_space_def by (auto simp only: set_map)
    from n have "n < 256"
      using codes [of n] by auto
    with c have "(of_char c :: nat) = n"
      by simp
    with n show "(of_char c :: nat) \<in> set ([9..<14] @ [28..<33] @ [133, 160])"
      by (simp only:)
  next
    assume "(of_char c :: nat) \<in> set ([9..<14] @ [28..<33] @ [133, 160])"
    then have "char_of (of_char c :: nat) \<in> set white_space"
      unfolding white_space_def set_map by (rule imageI)
    then show "c \<in> set white_space"
      by simp
  qed
  then show ?thesis
    using codes [of "of_char c"] by (simp add: isspace_def Let_def)
qed

lemma pieces_fragments: "pieces s = fragments s"
  by (induction s) (simp_all add: isspace_white_space)

lemma tokens_input_tokens: "tokens s = input_tokens s"
  by (simp add: tokens_whole split_fragments input_tokens_def lower_lowercased pieces_fragments)

subsection \<open>The printed counts are decimal numerals\<close>

lemma digits_all:
  "\<forall>k\<in>set [0..<10]. char_of (48 + k) \<in> set ''0123456789'' \<and> digit_value (char_of (48 + k)) = k"
  by code_simp

lemma nonzero_digits_all:
  "\<forall>k\<in>set [1..<10]. char_of (48 + k) \<in> set ''123456789''"
  by code_simp

lemma digit_char:
  "k < 10 \<Longrightarrow>
   char_of (48 + k :: nat) \<in> set ''0123456789'' \<and> digit_value (char_of (48 + k)) = k"
proof -
  assume "k < 10"
  then have "k \<in> set [0..<10]"
    by (simp only: set_upt) simp
  with digits_all show ?thesis
    by blast
qed

lemma nonzero_digit_char:
  "0 < k \<Longrightarrow> k < 10 \<Longrightarrow> char_of (48 + k :: nat) \<in> set ''123456789''"
proof -
  assume "0 < k" and "k < 10"
  then have "k \<in> set [1..<10]"
    by (simp only: set_upt) simp
  with nonzero_digits_all show ?thesis
    by blast
qed

lemma decimal_value_snoc:
  "decimal_value (ds @ [d]) = 10 * decimal_value ds + digit_value d"
  by (simp add: decimal_value_def)

lemma positive_numeral_snoc:
  "positive_numeral ds \<Longrightarrow> d \<in> set ''0123456789'' \<Longrightarrow> positive_numeral (ds @ [d])"
  unfolding positive_numeral_def by (cases ds) simp_all

lemma str_nat_numeral:
  "0 < n \<Longrightarrow> positive_numeral (str_nat n) \<and> decimal_value (str_nat n) = n"
proof (induction n rule: str_nat.induct)
  case (1 n)
  show ?case
  proof (cases "n < 10")
    case True
    then have s: "str_nat n = [char_of (48 + n)]"
      by (simp add: str_nat.simps [of n])
    have "positive_numeral [char_of (48 + n)]"
      using nonzero_digit_char [OF "1.prems" True]
      unfolding positive_numeral_def by simp
    moreover have "decimal_value [char_of (48 + n)] = n"
      using digit_char [OF True] decimal_value_snoc [of "[]" "char_of (48 + n)"]
      by (simp add: decimal_value_def)
    ultimately show ?thesis
      by (simp only: s simp_thms)
  next
    case False
    then have s: "str_nat n = str_nat (n div 10) @ [char_of (48 + n mod 10)]"
      by (simp add: str_nat.simps [of n])
    from False have "0 < n div 10"
      by simp
    with "1.IH" False
    have ih: "positive_numeral (str_nat (n div 10))" "decimal_value (str_nat (n div 10)) = n div 10"
      by blast+
    have d: "char_of (48 + n mod 10) \<in> set ''0123456789''"
      "digit_value (char_of (48 + n mod 10)) = n mod 10"
      using digit_char [of "n mod 10"] by simp_all
    have "positive_numeral (str_nat (n div 10) @ [char_of (48 + n mod 10)])"
      using ih(1) d(1) by (rule positive_numeral_snoc)
    moreover have "decimal_value (str_nat (n div 10) @ [char_of (48 + n mod 10)]) = n"
      by (simp only: decimal_value_snoc ih(2) d(2)) simp
    ultimately show ?thesis
      by (simp only: s simp_thms)
  qed
qed

lemma pairs_counts_positive: "kv \<in> set (pairs s) \<Longrightarrow> 1 \<le> snd kv"
proof -
  assume "kv \<in> set (pairs s)"
  then obtain w where w: "w \<in> set (tokens s)" and kv: "kv = (w, int (count_list (tokens s) w))"
    by (auto simp: pairs_closed)
  from w have "count_list (tokens s) w \<noteq> 0"
    by (simp add: count_list_0_iff)
  with kv show ?thesis
    by simp
qed

lemma emitted_count_numeral:
  "kv \<in> set (pairs s) \<Longrightarrow>
   positive_numeral (count_of (emitted_line kv)) \<and>
   int (decimal_value (count_of (emitted_line kv))) = snd kv"
proof -
  assume kv: "kv \<in> set (pairs s)"
  then have pos: "0 < nat (snd kv)" and "\<not> snd kv < 0"
    using pairs_counts_positive [of kv s] by simp_all
  then have "str_int (snd kv) = str_nat (nat (snd kv))"
    by (simp add: str_int_def)
  with str_nat_numeral [OF pos] pos show ?thesis
    by (simp add: count_of_emitted_line [OF kv])
qed

lemma emitted_line_parts:
  "kv \<in> set (pairs s) \<Longrightarrow>
   emitted_line kv = word_of (emitted_line kv) @ [space] @ count_of (emitted_line kv)"
  by (simp add: word_of_emitted_line count_of_emitted_line) (simp add: emitted_line_def)


lemma emitted_words: "map word_of (emitted s) = map fst (pairs s)"
  by (simp add: emitted_def word_of_emitted_line)


lemma pairs_count:
  "kv \<in> set (pairs s) \<Longrightarrow> snd kv = int (count_list (input_tokens s) (fst kv))"
  by (auto simp: pairs_closed tokens_input_tokens)

lemma emitted_line_spec:
  assumes "kv \<in> set (pairs s)"
  shows "emitted_line kv = word_of (emitted_line kv) @ [space] @ count_of (emitted_line kv) \<and>
     count_list (emitted_line kv) space = 1 \<and>
     positive_numeral (count_of (emitted_line kv)) \<and>
     decimal_value (count_of (emitted_line kv)) =
       count_list (input_tokens s) (word_of (emitted_line kv))"
proof -
  have "int (decimal_value (count_of (emitted_line kv))) =
        int (count_list (input_tokens s) (fst kv))"
    using emitted_count_numeral [OF assms] pairs_count [OF assms] by simp
  then have "decimal_value (count_of (emitted_line kv)) =
        count_list (input_tokens s) (word_of (emitted_line kv))"
    by (simp add: word_of_emitted_line [OF assms])
  then show ?thesis
    using emitted_line_parts [OF assms] spaces_emitted_line [OF assms]
      emitted_count_numeral [OF assms]
    by blast
qed

section \<open>The properties of the specification\<close>

text \<open>
  C1: every emitted pair holds a word and the number of times this word occurs among
  the tokens of the input, the tokens being those of the specification: each line
  lower-cased, split at white space, the empty fragments discarded. The line printed for
  the pair is the word, a space and this count (\<open>emitted_line\<close>).
\<close>

theorem count_is_number_of_occurrences:
  "(w, c) \<in> set (pairs s) \<Longrightarrow> c = int (count_list (spec_tokens s) w)"
  by (auto simp: pairs_closed tokens_spec_tokens)

theorem count_is_number_of_occurrences_witness:
  "(''a'', 3) \<in> set (pairs example_input) \<and> 3 = int (count_list (spec_tokens example_input) ''a'')"
proof -
  have h: "(''a'', 3) \<in> set (pairs example_input)"
    by code_simp
  from count_is_number_of_occurrences [OF h] h show ?thesis
    by simp
qed

text \<open>
  C2: the pairs are emitted by descending count: of two consecutive lines, the first has
  a count at least as large as the second.
\<close>

theorem consecutive_counts_descend:
  "Suc i < length (pairs s) \<Longrightarrow> snd (pairs s ! Suc i) \<le> snd (pairs s ! i)"
  using pairs_sorted_wrt [of s] by (simp add: sorted_wrt_iff_nth_less)

theorem consecutive_counts_descend_witness:
  "Suc 0 < length (pairs example_input) \<and>
   snd (pairs example_input ! Suc 0) \<le> snd (pairs example_input ! 0)"
proof -
  have h: "Suc 0 < length (pairs example_input)"
    by code_simp
  from consecutive_counts_descend [OF h] h show ?thesis
    by simp
qed

text \<open>
  C6: on the two lines \<^verbatim>\<open>a b a\<close> and \<^verbatim>\<open>A c b\<close> the tokens are a, b, a, a, c, b, the table
  is a:3, b:2, c:1 and the output is the three lines \<^verbatim>\<open>a 3\<close>, \<^verbatim>\<open>b 2\<close>, \<^verbatim>\<open>c 1\<close>.
\<close>

theorem example_run:
  "tokens example_input = [''a'', ''b'', ''a'', ''a'', ''c'', ''b''] \<and>
   counts_of example_input = [(''a'', 3), (''b'', 2), (''c'', 1)] \<and>
   emitted example_input = [''a 3'', ''b 2'', ''c 1''] \<and>
   main example_input = ''a 3'' @ [newline] @ ''b 2'' @ [newline] @ ''c 1'' @ [newline]"
  by code_simp

text \<open>C7: on the empty input nothing is written.\<close>

theorem empty_input_empty_output:
  "main [] = [] \<and> emitted [] = []"
  by (simp add: main_def emitted_def pairs_def items_def counts_of_def readlines_Nil
      sorted_reverse_def)

text \<open>
  C10: every emitted count is at least 1 and every emitted word is a token of the
  input; and whatever prefix of the token stream the loops have processed, every count
  in the table is at least 1.
\<close>

theorem counts_are_positive:
  "((w, c) \<in> set (pairs s) \<longrightarrow> 1 \<le> c \<and> w \<in> set (tokens s)) \<and>
   ((w, c) \<in> set (count_words [] (take n (tokens s))) \<longrightarrow> 1 \<le> c)"
proof -
  have pos: "1 \<le> int (count_list xs x)" if "x \<in> set xs" for xs :: "string list" and x
    using that count_list_0_iff [of xs x] by (cases "count_list xs x") auto
  have "1 \<le> c \<and> w \<in> set (tokens s)" if "(w, c) \<in> set (pairs s)"
    using that pos [of w "tokens s"] by (auto simp: pairs_closed)
  moreover have "1 \<le> c" if "(w, c) \<in> set (count_words [] (take n (tokens s)))"
    using that pos [of w "take n (tokens s)"]
    by (auto simp: count_words_closed set_first_seen)
  ultimately show ?thesis by blast
qed

theorem counts_are_positive_witness:
  "(''a'', 3) \<in> set (pairs example_input) \<and> (1::int) \<le> 3 \<and>
   ''a'' \<in> set (tokens example_input) \<and>
   (''a'', 2) \<in> set (count_words [] (take 3 (tokens example_input))) \<and> (1::int) \<le> 2"
proof -
  have h1: "(''a'', 3) \<in> set (pairs example_input)"
    by code_simp
  have h2: "(''a'', 2) \<in> set (count_words [] (take 3 (tokens example_input)))"
    by code_simp
  from counts_are_positive [of "''a''" 3 example_input] h1
  have "''a'' \<in> set (tokens example_input)"
    by blast
  moreover from counts_are_positive [of "''a''" 2 example_input 3] h2
  have "(1::int) \<le> 2"
    by blast
  ultimately show ?thesis
    using h1 h2 by simp
qed

text \<open>
  C8: two runs produce the same multiset of (word, count) pairs. The multiset is fixed by
  the words of the input and the number of times each occurs, so it is the same for
  two runs on the same input, and also for two inputs that hold the same tokens in
  another order, where words with equal counts may come out in another order.
\<close>

theorem two_runs_same_multiset:
  "mset (tokens s1) = mset (tokens s2) \<Longrightarrow> mset (pairs s1) = mset (pairs s2)"
  by (simp add: mset_pairs_closed)

theorem two_runs_same_multiset_witness:
  "mset (tokens tie_input) = mset (tokens tie_input_reordered) \<and>
   mset (pairs tie_input) = mset (pairs tie_input_reordered) \<and>
   pairs tie_input \<noteq> pairs tie_input_reordered"
proof -
  have t1: "tokens tie_input = [''b'', ''a'', ''c'', ''c'', ''b'']"
    by code_simp
  have t2: "tokens tie_input_reordered = [''c'', ''b'', ''c'', ''a'', ''b'']"
    by code_simp
  have h: "mset (tokens tie_input) = mset (tokens tie_input_reordered)"
    unfolding t1 t2 by simp
  have "pairs tie_input \<noteq> pairs tie_input_reordered"
    by code_simp
  with two_runs_same_multiset [OF h] h show ?thesis
    by simp
qed

text \<open>
  C9: of two emitted words with equal counts, the one emitted first is the one that
  occurs first in the token stream. With the descending counts this fixes the order of
  the output.
\<close>

theorem ties_in_order_of_first_occurrence:
  "i < j \<Longrightarrow> j < length (pairs s) \<Longrightarrow> snd (pairs s ! i) = snd (pairs s ! j) \<Longrightarrow>
   first_occurrence (tokens s) (fst (pairs s ! i)) <
   first_occurrence (tokens s) (fst (pairs s ! j))"
  using sorted_wrt_filter_nth [OF equal_counts_sorted, of i j s "snd (pairs s ! j)"]
  by simp

theorem ties_in_order_of_first_occurrence_witness:
  "(0::nat) < 1 \<and> 1 < length (pairs tie_input) \<and>
   snd (pairs tie_input ! 0) = snd (pairs tie_input ! 1) \<and>
   first_occurrence (tokens tie_input) (fst (pairs tie_input ! 0)) <
   first_occurrence (tokens tie_input) (fst (pairs tie_input ! 1))"
proof -
  have h1: "(0::nat) < 1"
    by simp
  have h2: "1 < length (pairs tie_input)"
    by code_simp
  have h3: "snd (pairs tie_input ! 0) = snd (pairs tie_input ! 1)"
    by code_simp
  from ties_in_order_of_first_occurrence [OF h1 h2 h3] h1 h2 h3 show ?thesis
    by simp
qed



text \<open>
  C5: the text written to standard output is the emitted lines, each closed by a line
  feed and none holding a line feed, and nothing else. There are as many lines as the
  input has distinct tokens, and the words at the heads of the lines are these tokens,
  each once. Every line is its word, one space and its count, with no other space; the
  count is a decimal numeral without leading zero, and its value is the number of
  occurrences of the word among the tokens of the input.
\<close>

theorem one_line_per_distinct_word:
  "main s = concat (map (\<lambda>l. l @ [newline]) (emitted s)) \<and>
   readlines (main s) = map (\<lambda>l. l @ [newline]) (emitted s) \<and>
   list_all (\<lambda>l. newline \<notin> set l) (emitted s) \<and>
   length (emitted s) = card (set (input_tokens s)) \<and>
   distinct (map word_of (emitted s)) \<and>
   set (map word_of (emitted s)) = set (input_tokens s) \<and>
   list_all (\<lambda>l. l = word_of l @ [space] @ count_of l \<and>
                 count_list l space = 1 \<and>
                 positive_numeral (count_of l) \<and>
                 decimal_value (count_of l) = count_list (input_tokens s) (word_of l))
     (emitted s)"
proof -
  have "list_all (\<lambda>l. newline \<notin> set l) (emitted s)"
    by (simp add: emitted_def list_all_iff emitted_line_no_newline)
  moreover have "length (emitted s) = card (set (input_tokens s))"
    by (simp add: emitted_def length_pairs tokens_input_tokens)
  moreover have "distinct (map word_of (emitted s))"
    by (simp only: emitted_words distinct_keys_pairs)
  moreover have "set (map word_of (emitted s)) = set (input_tokens s)"
    by (simp add: emitted_words pairs_closed image_image tokens_input_tokens)
  moreover have "list_all (\<lambda>l. l = word_of l @ [space] @ count_of l \<and>
                 count_list l space = 1 \<and>
                 positive_numeral (count_of l) \<and>
                 decimal_value (count_of l) = count_list (input_tokens s) (word_of l))
     (emitted s)"
    unfolding emitted_def list_all_iff using emitted_line_spec [of _ s] by auto
  ultimately show ?thesis
    using main_emitted [of s] readlines_main [of s] by blast
qed

theorem one_line_per_distinct_word_witness:
  "emitted example_input = [''a 3'', ''b 2'', ''c 1''] \<and>
   main example_input = concat (map (\<lambda>l. l @ [newline]) [''a 3'', ''b 2'', ''c 1'']) \<and>
   card (set (input_tokens example_input)) = 3 \<and>
   decimal_value (count_of ''a 3'') = count_list (input_tokens example_input) (word_of ''a 3'')"
proof -
  have e: "emitted example_input = [''a 3'', ''b 2'', ''c 1'']"
    by code_simp
  from one_line_per_distinct_word [of example_input] show ?thesis
    unfolding e by simp
qed

end
